theory Spec2Isabelle
  imports Main "HOL-Library.Sublist" "HOL-Library.Multiset"
begin

section \<open>Strings and characters\<close>

text \<open>
  The module \<open>notebooks/utils.py\<close> works on Python \<open>str\<close> values, which are sequences of
  Unicode code points (the sentence terminator U+3002 it appends is not a byte). A
  character is therefore a code point, a natural number, and a string is a list of them;
  \<open>length\<close> is Python's \<open>len\<close>. The function \<open>ustr_of\<close> reads an ASCII literal.
\<close>

type_synonym uchar = nat
type_synonym ustr = "nat list"

definition ustr_of :: "string \<Rightarrow> ustr" where
  "ustr_of s = map of_char s"

text \<open>
  \<open>str.isspace\<close>, which is also what \<open>\s\<close> matches in a \<open>str\<close> pattern and what
  \<open>str.strip()\<close> removes: the code points CPython lists as whitespace.
\<close>

definition isspace :: "uchar \<Rightarrow> bool" where
  "isspace c \<longleftrightarrow>
     (9 \<le> c \<and> c \<le> 13) \<or> (28 \<le> c \<and> c \<le> 32) \<or> c = 133 \<or> c = 160 \<or> c = 5760 \<or>
     (8192 \<le> c \<and> c \<le> 8202) \<or> c = 8232 \<or> c = 8233 \<or> c = 8239 \<or> c = 8287 \<or> c = 12288"

definition lstrip :: "ustr \<Rightarrow> ustr" where
  "lstrip s = dropWhile isspace s"

definition rstrip :: "ustr \<Rightarrow> ustr" where
  "rstrip s = rev (dropWhile isspace (rev s))"

definition strip :: "ustr \<Rightarrow> ustr" where
  "strip s = rstrip (lstrip s)"

text \<open>\<open>s.rstrip(chars)\<close>: drop the trailing characters that belong to \<open>chars\<close>.\<close>

definition rstrip_chars :: "ustr \<Rightarrow> ustr \<Rightarrow> ustr" where
  "rstrip_chars chars s = rev (dropWhile (\<lambda>c. c \<in> set chars) (rev s))"

text \<open>
  Python slices with an integer bound that may be negative (counted from the end) or
  beyond the string (clamped): \<open>s[i:]\<close> and \<open>s[:i]\<close>.
\<close>

definition slice_from :: "int \<Rightarrow> 'a list \<Rightarrow> 'a list" where
  "slice_from i xs =
     (if i < 0 then drop (nat (int (length xs) + i)) xs else drop (nat i) xs)"

definition slice_to :: "int \<Rightarrow> 'a list \<Rightarrow> 'a list" where
  "slice_to i xs =
     (if i < 0 then take (nat (int (length xs) + i)) xs else take (nat i) xs)"


section \<open>Values and errors\<close>

text \<open>
  The exceptions the modelled code can raise, and the values a decoded Graph API response
  (or a metadata mapping) is made of: \<open>None\<close>, booleans, integers, strings, lists
  and dictionaries with string keys, a dictionary being the list of its items.
\<close>

datatype py_error = AttributeError | TypeError | KeyError | ValueError

datatype pyval =
    PNone
  | PBool bool
  | PInt int
  | PStr ustr
  | PList "pyval list"
  | PDict "(ustr \<times> pyval) list"

definition err_bind :: "'e + 'a \<Rightarrow> ('a \<Rightarrow> 'e + 'b) \<Rightarrow> 'e + 'b" where
  "err_bind m f = (case m of Inl e \<Rightarrow> Inl e | Inr x \<Rightarrow> f x)"

fun fold_err :: "('a \<Rightarrow> 's \<Rightarrow> 'e + 's) \<Rightarrow> 'a list \<Rightarrow> 's \<Rightarrow> 'e + 's" where
  "fold_err f [] s = Inr s"
| "fold_err f (x # xs) s = err_bind (f x s) (fold_err f xs)"


section \<open>Identifier generator: \<open>create_document_id\<close>\<close>

text \<open>
  The character class \<open>[a-zA-Z0-9\-_]\<close> of the substitution pattern, and
  \<open>str.isalpha\<close> on the characters that survive the substitution (all below 128, where
  \<open>isalpha\<close> is the test for an ASCII letter).
\<close>

definition is_ascii_alpha :: "uchar \<Rightarrow> bool" where
  "is_ascii_alpha c \<longleftrightarrow> (65 \<le> c \<and> c \<le> 90) \<or> (97 \<le> c \<and> c \<le> 122)"

definition is_ascii_digit :: "uchar \<Rightarrow> bool" where
  "is_ascii_digit c \<longleftrightarrow> 48 \<le> c \<and> c \<le> 57"

definition id_char :: "uchar \<Rightarrow> bool" where
  "id_char c \<longleftrightarrow> is_ascii_alpha c \<or> is_ascii_digit c \<or> c = 45 \<or> c = 95"

text \<open>
  The nested helper \<open>sanitize_id_part(text, max_length)\<close>, statement by statement:
  remove what is outside the class, prefix \<open>doc\<close> when the first character is not a
  letter, substitute \<open>unknown\<close> for the empty string, cut to \<open>max_length\<close>, strip
  trailing \<open>-\<close> and \<open>_\<close>, substitute \<open>unknown\<close> again.
\<close>

definition sanitize_id_part :: "ustr \<Rightarrow> int \<Rightarrow> ustr" where
  "sanitize_id_part text_in max_length =
     (let safe1 = filter id_char text_in;
          safe2 = (if safe1 \<noteq> [] \<and> \<not> is_ascii_alpha (hd safe1)
                   then ustr_of ''doc'' @ safe1 else safe1);
          safe3 = (if safe2 = [] then ustr_of ''unknown'' else safe2);
          safe4 = (if int (length safe3) > max_length
                   then slice_to max_length safe3 else safe3);
          safe5 = rstrip_chars (ustr_of ''-_'') safe4
      in if safe5 = [] then ustr_of ''unknown'' else safe5)"

text \<open>
  The decimal digits of a natural number and the decimal form of an integer, with its
  sign.
\<close>

fun nat_digits :: "nat \<Rightarrow> ustr" where
  "nat_digits n = (if n < 10 then [48 + n] else nat_digits (n div 10) @ [48 + n mod 10])"

declare nat_digits.simps [simp del]

definition digit_count :: "int \<Rightarrow> nat" where
  "digit_count i = length (nat_digits (nat \<bar>i\<bar>))"

definition int_digits :: "int \<Rightarrow> ustr" where
  "int_digits i = (if i < 0 then 45 # nat_digits (nat (- i)) else nat_digits (nat i))"

text \<open>
  The conversion of an integer to its decimal string, as the f-string \<open>{chunk_index}\<close>
  performs it. CPython keeps a process-wide limit on the number of digits of such a
  conversion (\<open>sys.get_int_max_str_digits()\<close>: 4300 unless changed, 0 for no limit, never
  between 1 and 639) and raises \<open>ValueError\<close> for an integer with more digits, the sign
  not counted. The limit in force is the parameter \<open>max_str_digits\<close>; an interpreter
  without the limit is the case 0.
\<close>

definition str_int :: "nat \<Rightarrow> int \<Rightarrow> py_error + ustr" where
  "str_int max_str_digits i =
     (if 0 < max_str_digits \<and> max_str_digits < digit_count i then Inl ValueError
      else Inr (int_digits i))"

text \<open>
  \<open>create_document_id(site_id, drive_id, item_id, chunk_index=None)\<close>. Each of the two
  pairs of f-strings is \<open>join_id\<close>, which formats the chunk index when there is one. The
  digest \<open>hashlib.md5(doc_id.encode()).hexdigest()\<close> belongs to the standard library, not
  to the module: it is the parameter \<open>md5_hexdigest\<close>, of which the code takes the first
  eight characters.
\<close>

definition join_id ::
  "nat \<Rightarrow> ustr \<Rightarrow> ustr \<Rightarrow> ustr \<Rightarrow> int option \<Rightarrow> py_error + ustr" where
  "join_id max_str_digits a b c chunk_index =
     (case chunk_index of
        Some n \<Rightarrow>
          err_bind (str_int max_str_digits n) (\<lambda>digits.
            Inr (a @ [95] @ b @ [95] @ c @ [95] @ digits))
      | None \<Rightarrow> Inr (a @ [95] @ b @ [95] @ c))"

definition create_document_id ::
  "nat \<Rightarrow> (ustr \<Rightarrow> ustr) \<Rightarrow> ustr \<Rightarrow> ustr \<Rightarrow> ustr \<Rightarrow> int option \<Rightarrow> py_error + ustr" where
  "create_document_id max_str_digits md5_hexdigest site_id drive_id item_id chunk_index =
     (let safe_site = sanitize_id_part site_id 20;
          safe_drive = sanitize_id_part drive_id 20;
          safe_item = sanitize_id_part item_id 40
      in err_bind (join_id max_str_digits safe_site safe_drive safe_item chunk_index) (\<lambda>doc_id.
           if length doc_id > 1024
           then (let hash_suffix = slice_to 8 (md5_hexdigest doc_id)
                 in join_id max_str_digits (slice_to 10 safe_site) (slice_to 10 safe_drive)
                      hash_suffix chunk_index)
           else Inr doc_id))"

text \<open>The pattern \<open>^[A-Za-z][A-Za-z0-9_-]*$\<close> of the identifier invariant.\<close>

definition matches_id_pattern :: "ustr \<Rightarrow> bool" where
  "matches_id_pattern s \<longleftrightarrow> s \<noteq> [] \<and> is_ascii_alpha (hd s) \<and> list_all id_char s"


section \<open>Chunking engine: \<open>TextChunker\<close>\<close>

record TextChunk =
  chunk_text :: ustr
  chunk_index :: int
  start_char :: int
  end_char :: int
  metadata :: "(ustr \<times> pyval) list"

record TextChunker =
  chunk_size :: int
  chunk_overlap :: int

text \<open>
  \<open>TextChunker.__init__(chunk_size, chunk_overlap)\<close> stores its two arguments; the
  result type leaves room for the exception a constructor could raise.
\<close>

definition TextChunker_init :: "int \<Rightarrow> int \<Rightarrow> py_error + TextChunker" where
  "TextChunker_init size_arg overlap_arg =
     Inr \<lparr>chunk_size = size_arg, chunk_overlap = overlap_arg\<rparr>"

text \<open>
  \<open>re.split(r'\n\s*\n', text)\<close>. At a newline the pattern takes the longest run of
  whitespace that follows and gives it back until the run ends in a newline, so the
  match reaches the last newline of the run; without a newline in the run there is no
  match at this position. \<open>acc\<close> is the piece read so far, reversed.
\<close>

definition after_last_newline :: "ustr \<Rightarrow> ustr" where
  "after_last_newline run = rev (takeWhile (\<lambda>c. c \<noteq> 10) (rev run))"

function re_split_blank :: "ustr \<Rightarrow> ustr \<Rightarrow> ustr list" where
  "re_split_blank acc [] = [rev acc]"
| "re_split_blank acc (c # cs) =
     (if c = 10 \<and> 10 \<in> set (takeWhile isspace cs)
      then rev acc #
           re_split_blank [] (after_last_newline (takeWhile isspace cs) @ dropWhile isspace cs)
      else re_split_blank (c # acc) cs)"
  by pat_completeness auto
termination
proof (relation "measure (\<lambda>(acc, s). length s)")
  fix acc :: ustr and c :: uchar and cs :: ustr
  have "length (after_last_newline (takeWhile isspace cs)) \<le> length (takeWhile isspace cs)"
    using length_takeWhile_le [of "\<lambda>c. c \<noteq> 10" "rev (takeWhile isspace cs)"]
    by (simp add: after_last_newline_def)
  moreover have "length (takeWhile isspace cs) + length (dropWhile isspace cs) = length cs"
    by (simp flip: length_append)
  ultimately show
    "(([], after_last_newline (takeWhile isspace cs) @ dropWhile isspace cs), (acc, c # cs))
       \<in> measure (\<lambda>(acc, s). length s)"
    by simp
qed simp_all

text \<open>\<open>_split_into_paragraphs\<close>: the stripped pieces that are not empty.\<close>

definition split_into_paragraphs :: "ustr \<Rightarrow> ustr list" where
  "split_into_paragraphs text_in =
     map strip (filter (\<lambda>p. strip p \<noteq> []) (re_split_blank [] text_in))"

text \<open>
  \<open>re.split(r'[\<dots>.!?]\s*', text)\<close>, the first character of the class being U+3002:
  a delimiter and all the whitespace after it.
\<close>

definition is_sentence_delim :: "uchar \<Rightarrow> bool" where
  "is_sentence_delim c \<longleftrightarrow> c = 12290 \<or> c = 46 \<or> c = 33 \<or> c = 63"

function re_split_delim :: "ustr \<Rightarrow> ustr \<Rightarrow> ustr list" where
  "re_split_delim acc [] = [rev acc]"
| "re_split_delim acc (c # cs) =
     (if is_sentence_delim c
      then rev acc # re_split_delim [] (dropWhile isspace cs)
      else re_split_delim (c # acc) cs)"
  by pat_completeness auto
termination
  by (relation "measure (\<lambda>(acc, s). length s)")
     (auto simp: less_Suc_eq_le length_dropWhile_le)

text \<open>\<open>_split_into_sentences\<close>: each non-empty stripped piece, with U+3002 appended.\<close>

definition split_into_sentences :: "ustr \<Rightarrow> ustr list" where
  "split_into_sentences text_in =
     map (\<lambda>s. strip s @ [12290]) (filter (\<lambda>s. strip s \<noteq> []) (re_split_delim [] text_in))"

text \<open>\<open>_create_chunk\<close>; \<open>metadata or {}\<close> is the empty mapping for \<open>None\<close>.\<close>

definition create_chunk ::
  "ustr \<Rightarrow> int \<Rightarrow> int \<Rightarrow> int \<Rightarrow> (ustr \<times> pyval) list option \<Rightarrow> TextChunk" where
  "create_chunk t i s e md =
     \<lparr>chunk_text = t, chunk_index = i, start_char = s, end_char = e,
      metadata = (case md of None \<Rightarrow> [] | Some m \<Rightarrow> m)\<rparr>"

text \<open>The local variables of \<open>split_text\<close> that its loops update.\<close>

record split_state =
  chunks :: "TextChunk list"
  current_chunk :: ustr
  current_start :: int
  next_index :: int

text \<open>
  The expression of lines 231 and 253:
  \<open>current_chunk[-self.chunk_overlap:] if len(current_chunk) > self.chunk_overlap else current_chunk\<close>.
\<close>

definition overlap_text :: "int \<Rightarrow> ustr \<Rightarrow> ustr" where
  "overlap_text overlap cur =
     (if int (length cur) > overlap then slice_from (- overlap) cur else cur)"

text \<open>
  The body of both loops, which differ in the separator only (a space after a sentence,
  two newlines after a paragraph): append the unit when it fits; otherwise emit the
  buffer, if it is not empty, and start the next one from the overlap; otherwise start
  the buffer with the unit.
\<close>

definition add_unit ::
  "TextChunker \<Rightarrow> (ustr \<times> pyval) list option \<Rightarrow> ustr \<Rightarrow> split_state \<Rightarrow> ustr \<Rightarrow> split_state" where
  "add_unit self md sep st unit =
     (if int (length (current_chunk st)) + int (length unit) \<le> chunk_size self
      then st\<lparr>current_chunk := current_chunk st @ unit @ sep\<rparr>
      else if current_chunk st \<noteq> []
      then (let emitted = create_chunk (strip (current_chunk st)) (next_index st)
                            (current_start st)
                            (current_start st + int (length (current_chunk st))) md;
                carried = overlap_text (chunk_overlap self) (current_chunk st);
                seeded = carried @ unit @ sep
            in \<lparr>chunks = chunks st @ [emitted],
                current_chunk = seeded,
                current_start = current_start st + (int (length seeded) - int (length carried)),
                next_index = next_index st + 1\<rparr>)
      else st\<lparr>current_chunk := unit @ sep\<rparr>)"

definition add_paragraph ::
  "TextChunker \<Rightarrow> (ustr \<times> pyval) list option \<Rightarrow> split_state \<Rightarrow> ustr \<Rightarrow> split_state" where
  "add_paragraph self md st para =
     (if int (length para) > chunk_size self
      then foldl (add_unit self md [32]) st (split_into_sentences para)
      else add_unit self md [10, 10] st para)"

definition initial_state :: split_state where
  "initial_state = \<lparr>chunks = [], current_chunk = [], current_start = 0, next_index = 0\<rparr>"

definition split_text ::
  "TextChunker \<Rightarrow> ustr \<Rightarrow> (ustr \<times> pyval) list option \<Rightarrow> TextChunk list" where
  "split_text self text_in md =
     (if text_in = [] \<or> strip text_in = [] then []
      else (let st = foldl (add_paragraph self md) initial_state (split_into_paragraphs text_in)
            in if strip (current_chunk st) \<noteq> []
               then chunks st @
                    [create_chunk (strip (current_chunk st)) (next_index st) (current_start st)
                       (current_start st + int (length (current_chunk st))) md]
               else chunks st))"

text \<open>
  The units the loops of \<open>split_text\<close> go through: the sentences of a paragraph longer
  than \<open>chunk_size\<close>, any other paragraph itself.
\<close>

definition units_of_paragraph :: "TextChunker \<Rightarrow> ustr \<Rightarrow> ustr list" where
  "units_of_paragraph self para =
     (if int (length para) > chunk_size self then split_into_sentences para else [para])"

definition units_of :: "TextChunker \<Rightarrow> ustr \<Rightarrow> ustr list" where
  "units_of self text_in =
     concat (map (units_of_paragraph self) (split_into_paragraphs text_in))"


section \<open>ACL extractor: \<open>extract_acl_from_permissions\<close>\<close>

text \<open>Truth value of an object, as \<open>if x\<close>, \<open>x and y\<close> and \<open>x or y\<close> test it.\<close>

fun truthy :: "pyval \<Rightarrow> bool" where
  "truthy PNone = False"
| "truthy (PBool b) = b"
| "truthy (PInt i) = (i \<noteq> 0)"
| "truthy (PStr s) = (s \<noteq> [])"
| "truthy (PList xs) = (xs \<noteq> [])"
| "truthy (PDict kvs) = (kvs \<noteq> [])"

text \<open>\<open>obj.get(key, default)\<close>: only a dictionary has the method.\<close>

fun dict_get :: "pyval \<Rightarrow> ustr \<Rightarrow> pyval \<Rightarrow> py_error + pyval" where
  "dict_get (PDict kvs) key dflt =
     Inr (case map_of kvs key of Some v \<Rightarrow> v | None \<Rightarrow> dflt)"
| "dict_get other key dflt = Inl AttributeError"

text \<open>
  \<open>key in obj\<close> for a string \<open>key\<close>: a key of a dictionary, a substring of a string,
  an element of a list; the other values are not containers.
\<close>

fun py_contains :: "ustr \<Rightarrow> pyval \<Rightarrow> py_error + bool" where
  "py_contains key (PDict kvs) = Inr (map_of kvs key \<noteq> None)"
| "py_contains key (PStr s) = Inr (sublist key s)"
| "py_contains key (PList xs) = Inr (PStr key \<in> set xs)"
| "py_contains key other = Inl TypeError"

text \<open>\<open>obj[key]\<close> for a string \<open>key\<close>: strings and lists take integer indices only.\<close>

fun py_getitem :: "pyval \<Rightarrow> ustr \<Rightarrow> py_error + pyval" where
  "py_getitem (PDict kvs) key =
     (case map_of kvs key of Some v \<Rightarrow> Inr v | None \<Rightarrow> Inl KeyError)"
| "py_getitem other key = Inl TypeError"

text \<open>
  \<open>for x in obj\<close>: the elements of a list, the keys of a dictionary, the characters of
  a string.
\<close>

fun py_iter :: "pyval \<Rightarrow> py_error + pyval list" where
  "py_iter (PList xs) = Inr xs"
| "py_iter (PDict kvs) = Inr (map (\<lambda>kv. PStr (fst kv)) kvs)"
| "py_iter (PStr s) = Inr (map (\<lambda>c. PStr [c]) s)"
| "py_iter other = Inl TypeError"

text \<open>
  \<open>list(set(xs))\<close>: lists and dictionaries cannot be hashed; \<open>True\<close> and \<open>1\<close>, \<open>False\<close>
  and \<open>0\<close> are equal members, of which the set keeps the one added first. The list comes
  in the iteration order of the set, which Python does not specify (it follows the
  hashes, and the hashes of strings change from one process to the next): the model
  returns the members as a multiset, which has no order.
\<close>

fun hashable :: "pyval \<Rightarrow> bool" where
  "hashable (PList xs) = False"
| "hashable (PDict kvs) = False"
| "hashable other = True"

fun py_key :: "pyval \<Rightarrow> pyval" where
  "py_key (PBool b) = PInt (if b then 1 else 0)"
| "py_key other = other"

fun dedup_from :: "pyval list \<Rightarrow> pyval list \<Rightarrow> pyval list" where
  "dedup_from seen [] = []"
| "dedup_from seen (x # xs) =
     (if py_key x \<in> set seen then dedup_from seen xs
      else x # dedup_from (py_key x # seen) xs)"

definition list_of_set :: "pyval list \<Rightarrow> py_error + pyval multiset" where
  "list_of_set xs =
     (if list_all hashable xs then Inr (mset (dedup_from [] xs)) else Inl TypeError)"

text \<open>
  The four lines repeated for \<open>user\<close> and \<open>group\<close>:
  \<open>x = g.get(field); if x and "id" in x: ids.append(x["id"])\<close>.
\<close>

definition collect_id :: "pyval \<Rightarrow> ustr \<Rightarrow> pyval list \<Rightarrow> py_error + pyval list" where
  "collect_id g field ids =
     err_bind (dict_get g field PNone) (\<lambda>x.
       if truthy x
       then err_bind (py_contains (ustr_of ''id'') x) (\<lambda>has_id.
              if has_id
              then err_bind (py_getitem x (ustr_of ''id'')) (\<lambda>v. Inr (ids @ [v]))
              else Inr ids)
       else Inr ids)"

definition collect_grantee ::
  "pyval \<Rightarrow> pyval list \<times> pyval list \<Rightarrow> py_error + pyval list \<times> pyval list" where
  "collect_grantee g acc =
     err_bind (collect_id g (ustr_of ''user'') (fst acc)) (\<lambda>user_ids.
       err_bind (collect_id g (ustr_of ''group'') (snd acc)) (\<lambda>group_ids.
         Inr (user_ids, group_ids)))"

text \<open>Line 374: \<open>perm.get("grantedToV2") or perm.get("grantedTo")\<close>.\<close>

definition granted_of :: "pyval \<Rightarrow> py_error + pyval" where
  "granted_of perm =
     err_bind (dict_get perm (ustr_of ''grantedToV2'') PNone) (\<lambda>v2.
       if truthy v2 then Inr v2 else dict_get perm (ustr_of ''grantedTo'') PNone)"

text \<open>
  Line 388: \<open>perm.get("grantedToIdentitiesV2") or perm.get("grantedToIdentities", [])\<close>.
\<close>

definition identities_of :: "pyval \<Rightarrow> py_error + pyval" where
  "identities_of perm =
     err_bind (dict_get perm (ustr_of ''grantedToIdentitiesV2'') PNone) (\<lambda>v2.
       if truthy v2 then Inr v2
       else dict_get perm (ustr_of ''grantedToIdentities'') (PList []))"

text \<open>The body of the loop over \<open>permissions\<close>.\<close>

definition collect_permission ::
  "pyval \<Rightarrow> pyval list \<times> pyval list \<Rightarrow> py_error + pyval list \<times> pyval list" where
  "collect_permission perm acc =
     err_bind (granted_of perm) (\<lambda>granted.
       err_bind (if truthy granted then collect_grantee granted acc else Inr acc) (\<lambda>acc1.
         err_bind (identities_of perm) (\<lambda>identities.
           err_bind (py_iter identities) (\<lambda>entries.
             fold_err collect_grantee entries acc1))))"

definition extract_acl_from_permissions ::
  "pyval \<Rightarrow> py_error + pyval multiset \<times> pyval multiset" where
  "extract_acl_from_permissions permissions =
     err_bind (py_iter permissions) (\<lambda>perms.
       err_bind (fold_err collect_permission perms ([], [])) (\<lambda>acc.
         err_bind (list_of_set (fst acc)) (\<lambda>user_ids.
           err_bind (list_of_set (snd acc)) (\<lambda>group_ids.
             Inr (user_ids, group_ids)))))"


section \<open>Invariants of the loops of \<open>split_text\<close>\<close>

text \<open>
  The chunks emitted so far carry the indices \<open>0, 1, \<dots>\<close> in order, and the counter is
  the number of chunks emitted.
\<close>

definition indexed :: "split_state \<Rightarrow> bool" where
  "indexed st \<longleftrightarrow>
     map chunk_index (chunks st) = map int [0..<length (chunks st)] \<and>
     next_index st = int (length (chunks st))"

text \<open>A string that \<open>strip\<close> leaves as it is and that is not empty.\<close>

definition clean :: "ustr \<Rightarrow> bool" where
  "clean u \<longleftrightarrow> u \<noteq> [] \<and> \<not> isspace (hd u) \<and> \<not> isspace (last u)"

text \<open>The unit \<open>u\<close> is a contiguous part of an emitted chunk or of the buffer.\<close>

definition covered :: "split_state \<Rightarrow> ustr \<Rightarrow> bool" where
  "covered st u \<longleftrightarrow>
     list_ex (\<lambda>c. sublist u (chunk_text c)) (chunks st) \<or> sublist u (current_chunk st)"


text \<open>
  The units in the order in which the two loops meet them, each with the separator its
  loop appends after it (a space after a sentence, two newlines after a paragraph), and
  one turn of either loop on such a pair.
\<close>

definition separator_of :: "TextChunker \<Rightarrow> ustr \<Rightarrow> ustr" where
  "separator_of self para = (if int (length para) > chunk_size self then [32] else [10, 10])"

definition tagged_units :: "TextChunker \<Rightarrow> ustr \<Rightarrow> (ustr \<times> ustr) list" where
  "tagged_units self text_in =
     concat (map (\<lambda>para. map (\<lambda>u. (u, separator_of self para)) (units_of_paragraph self para))
                 (split_into_paragraphs text_in))"

definition add_tagged ::
  "TextChunker \<Rightarrow> (ustr \<times> pyval) list option \<Rightarrow> split_state \<Rightarrow> ustr \<times> ustr \<Rightarrow> split_state" where
  "add_tagged self md st tu = add_unit self md (snd tu) st (fst tu)"

text \<open>
  The local variables of \<open>split_text\<close> when the first \<open>n\<close> units have been processed.
\<close>

definition state_before ::
  "TextChunker \<Rightarrow> (ustr \<times> pyval) list option \<Rightarrow> ustr \<Rightarrow> nat \<Rightarrow> split_state" where
  "state_before self md text_in n =
     foldl (add_tagged self md) initial_state (take n (tagged_units self text_in))"

text \<open>
  What a buffer started in this state begins with: nothing when the current buffer is
  empty, the overlap of the current buffer otherwise.
\<close>

definition carried_into :: "TextChunker \<Rightarrow> split_state \<Rightarrow> ustr" where
  "carried_into self st =
     (if current_chunk st = [] then []
      else overlap_text (chunk_overlap self) (current_chunk st))"

text \<open>
  The position, in the list returned, of the chunk that a buffer started in this state
  becomes: the chunks emitted so far and the current buffer, if it is not empty, come
  before it.
\<close>

definition chunks_before :: "split_state \<Rightarrow> nat" where
  "chunks_before st = length (chunks st) + (if current_chunk st = [] then 0 else 1)"


section \<open>Permission inputs on which the extractor does not raise\<close>

text \<open>The value of a key of a dictionary, \<open>None\<close> when the key is absent: \<open>d.get(key)\<close>.\<close>

definition field :: "(ustr \<times> pyval) list \<Rightarrow> ustr \<Rightarrow> pyval" where
  "field kvs key = (case map_of kvs key of Some v \<Rightarrow> v | None \<Rightarrow> PNone)"

text \<open>
  The values of \<open>user\<close> or \<open>group\<close> on which the four lines of \<open>collect_id\<close> and the
  final \<open>set\<close> do not raise: a false value; a mapping without \<open>id\<close> or with an \<open>id\<close> that
  can be hashed; a string or a list in which \<open>"id"\<close> does not occur.
\<close>

fun principal_ok :: "pyval \<Rightarrow> bool" where
  "principal_ok (PDict kvs) =
     (case map_of kvs (ustr_of ''id'') of None \<Rightarrow> True | Some v \<Rightarrow> hashable v)"
| "principal_ok (PStr s) = (\<not> sublist (ustr_of ''id'') s)"
| "principal_ok (PList xs) = (PStr (ustr_of ''id'') \<notin> set xs)"
| "principal_ok other = (\<not> truthy other)"

text \<open>A granted-to value or an identities entry: a mapping with such \<open>user\<close> and \<open>group\<close>.\<close>

fun grantee_ok :: "pyval \<Rightarrow> bool" where
  "grantee_ok (PDict kvs) =
     (principal_ok (field kvs (ustr_of ''user'')) \<and> principal_ok (field kvs (ustr_of ''group'')))"
| "grantee_ok other = False"

text \<open>An identities value: it can be iterated and all its entries are such mappings.\<close>

definition entries_ok :: "pyval \<Rightarrow> bool" where
  "entries_ok v = (case py_iter v of Inr es \<Rightarrow> list_all grantee_ok es | Inl e \<Rightarrow> False)"

text \<open>
  A permission record: a mapping whose selected granted-to value is false or such a
  mapping, and whose selected identities value is as above.
\<close>

definition permission_ok :: "pyval \<Rightarrow> bool" where
  "permission_ok perm \<longleftrightarrow>
     (case granted_of perm of
        Inr g \<Rightarrow> (if truthy g then grantee_ok g else True)
      | Inl e \<Rightarrow> False) \<and>
     (case identities_of perm of Inr ids \<Rightarrow> entries_ok ids | Inl e \<Rightarrow> False)"

definition permissions_ok :: "pyval \<Rightarrow> bool" where
  "permissions_ok permissions =
     (case py_iter permissions of Inr perms \<Rightarrow> list_all permission_ok perms | Inl e \<Rightarrow> False)"

text \<open>Both lists collected so far hold values that can be hashed.\<close>

definition hashable_acc :: "pyval list \<times> pyval list \<Rightarrow> bool" where
  "hashable_acc acc \<longleftrightarrow> list_all hashable (fst acc) \<and> list_all hashable (snd acc)"


section \<open>Properties of the identifier generator\<close>

lemma rstrip_chars_length: "length (rstrip_chars cs s) \<le> length s"
  using length_dropWhile_le [of "\<lambda>c. c \<in> set cs" "rev s"] by (simp add: rstrip_chars_def)

lemma rstrip_chars_set: "set (rstrip_chars cs s) \<subseteq> set s"
  using set_dropWhileD [of _ "\<lambda>c. c \<in> set cs" "rev s"] by (auto simp: rstrip_chars_def)

lemma rstrip_chars_hd:
  assumes "s \<noteq> []" and "hd s \<notin> set cs"
  shows "rstrip_chars cs s \<noteq> [] \<and> hd (rstrip_chars cs s) = hd s"
proof -
  obtain x xs where s: "s = x # xs" using assms(1) by (cases s) auto
  have x: "x \<notin> set cs" using assms(2) s by simp
  have "dropWhile (\<lambda>c. c \<in> set cs) (rev xs @ [x]) = dropWhile (\<lambda>c. c \<in> set cs) (rev xs) @ [x]"
    using x by (induction "rev xs" arbitrary: xs) (auto simp: dropWhile_append)
  then show ?thesis by (simp add: rstrip_chars_def s)
qed

lemma alpha_not_separator: "is_ascii_alpha c \<Longrightarrow> c \<notin> set (ustr_of ''-_'')"
  by (auto simp: is_ascii_alpha_def ustr_of_def)

lemma pattern_unknown: "matches_id_pattern (ustr_of ''unknown'')"
  by (simp add: matches_id_pattern_def ustr_of_def is_ascii_alpha_def id_char_def)

lemma pattern_doc: "list_all id_char s \<Longrightarrow> matches_id_pattern (ustr_of ''doc'' @ s)"
  by (simp add: matches_id_pattern_def ustr_of_def is_ascii_alpha_def id_char_def)

lemma pattern_slice_to: "matches_id_pattern s \<Longrightarrow> 1 \<le> m \<Longrightarrow> matches_id_pattern (slice_to m s)"
  by (cases s)
     (auto simp: matches_id_pattern_def slice_to_def list_all_iff take_Cons' dest: in_set_takeD)

lemma pattern_rstrip:
  assumes s: "matches_id_pattern s"
  shows "matches_id_pattern (rstrip_chars (ustr_of ''-_'') s)"
proof -
  from s have "hd s \<notin> set (ustr_of ''-_'')"
    by (simp add: matches_id_pattern_def alpha_not_separator)
  with s have "rstrip_chars (ustr_of ''-_'') s \<noteq> [] \<and> hd (rstrip_chars (ustr_of ''-_'') s) = hd s"
    by (intro rstrip_chars_hd) (simp_all add: matches_id_pattern_def)
  then show ?thesis
    using s rstrip_chars_set [of "ustr_of ''-_''" s]
    by (auto simp: matches_id_pattern_def list_all_iff)
qed

lemma slice_to_length: "0 \<le> m \<Longrightarrow> int (length (slice_to m s)) \<le> m"
  by (simp add: slice_to_def)

text \<open>
  Every sanitized part starts with a letter, stays in the identifier alphabet and is no
  longer than its maximum, for any maximum that has room for \<open>unknown\<close>.
\<close>

lemma sanitize_id_part_shape:
  assumes m: "7 \<le> m"
  shows "matches_id_pattern (sanitize_id_part t m) \<and> int (length (sanitize_id_part t m)) \<le> m"
proof -
  define safe1 where "safe1 = filter id_char t"
  define safe2 where "safe2 = (if safe1 \<noteq> [] \<and> \<not> is_ascii_alpha (hd safe1)
                   then ustr_of ''doc'' @ safe1 else safe1)"
  define safe3 where "safe3 = (if safe2 = [] then ustr_of ''unknown'' else safe2)"
  define safe4 where "safe4 = (if int (length safe3) > m then slice_to m safe3 else safe3)"
  define safe5 where "safe5 = rstrip_chars (ustr_of ''-_'') safe4"
  have r: "sanitize_id_part t m = (if safe5 = [] then ustr_of ''unknown'' else safe5)"
    by (simp add: sanitize_id_part_def Let_def safe1_def safe2_def safe3_def safe4_def safe5_def)
  have a1: "list_all id_char safe1" by (simp add: safe1_def list_all_iff)
  have s3: "matches_id_pattern safe3"
    using a1 pattern_unknown pattern_doc [OF a1]
    by (auto simp: safe3_def safe2_def matches_id_pattern_def)
  have s4: "matches_id_pattern safe4" using s3 m by (simp add: safe4_def pattern_slice_to)
  have l4: "int (length safe4) \<le> m" using m slice_to_length [of m safe3] by (simp add: safe4_def)
  have s5: "matches_id_pattern safe5" using s4 by (simp add: safe5_def pattern_rstrip)
  have l5: "int (length safe5) \<le> m"
    using l4 rstrip_chars_length [of "ustr_of ''-_''" safe4] by (simp add: safe5_def)
  have "safe5 \<noteq> []" using s5 by (simp add: matches_id_pattern_def)
  then show ?thesis using r s5 l5 by simp
qed

lemma nat_digits_lower: "10 ^ k \<le> n \<Longrightarrow> k < length (nat_digits n)"
proof (induction k arbitrary: n)
  case 0
  then show ?case by (simp add: nat_digits.simps [of n])
next
  case (Suc k)
  then have "10 ^ k \<le> n div 10" by simp
  then have "k < length (nat_digits (n div 10))" by (rule Suc.IH)
  moreover have "(10::nat) ^ 1 \<le> 10 ^ Suc k" by (rule power_increasing) simp_all
  from this Suc.prems have "(10::nat) ^ 1 \<le> n" by (rule order_trans)
  then have "\<not> n < 10" by simp
  ultimately show ?case by (simp add: nat_digits.simps [of n])
qed

lemma nat_digits_upper: "n < 10 ^ Suc k \<Longrightarrow> length (nat_digits n) \<le> Suc k"
proof (induction k arbitrary: n)
  case 0
  then show ?case by (simp add: nat_digits.simps [of n])
next
  case (Suc k)
  then have "n div 10 < 10 ^ Suc k" by (simp add: less_mult_imp_div_less mult.commute)
  then have "length (nat_digits (n div 10)) \<le> Suc k" by (rule Suc.IH)
  then show ?case by (simp add: nat_digits.simps [of n])
qed

text \<open>The integer \<open>10 ^ k\<close> has \<open>k + 1\<close> digits.\<close>

lemma digit_count_power: "digit_count (10 ^ k) = Suc k"
proof -
  have n: "nat \<bar>(10::int) ^ k\<bar> = 10 ^ k" by (simp add: nat_power_eq)
  have "k < length (nat_digits (10 ^ k))" by (rule nat_digits_lower) simp
  moreover have "length (nat_digits (10 ^ k)) \<le> Suc k" by (rule nat_digits_upper) simp
  ultimately show ?thesis unfolding digit_count_def n by simp
qed

lemma int_digits_length:
  "length (int_digits n) = digit_count n + (if n < 0 then 1 else 0)"
  by (simp add: int_digits_def digit_count_def abs_if)

lemma str_int_returns:
  "max_str_digits = 0 \<or> digit_count n \<le> max_str_digits \<Longrightarrow>
     str_int max_str_digits n = Inr (int_digits n)"
  by (auto simp: str_int_def)

lemma str_int_raises:
  "0 < max_str_digits \<Longrightarrow> max_str_digits < digit_count n \<Longrightarrow>
     str_int max_str_digits n = Inl ValueError"
  by (simp add: str_int_def)

lemma join_id_None: "join_id l a b c None = Inr (a @ [95] @ b @ [95] @ c)"
  by (simp add: join_id_def)

lemma join_id_Some:
  "l = 0 \<or> digit_count n \<le> l \<Longrightarrow>
     join_id l a b c (Some n) = Inr (a @ [95] @ b @ [95] @ c @ [95] @ int_digits n)"
  by (simp add: join_id_def str_int_returns err_bind_def)

lemma join_id_raises:
  "0 < l \<Longrightarrow> l < digit_count n \<Longrightarrow> join_id l a b c (Some n) = Inl ValueError"
  by (simp add: join_id_def str_int_raises err_bind_def)

lemma sanitized_lengths:
  "length (sanitize_id_part s 20) \<le> 20" "length (sanitize_id_part i 40) \<le> 40"
  using sanitize_id_part_shape [of 20 s] sanitize_id_part_shape [of 40 i] by simp_all

text \<open>
  An index with more digits than the limit in force makes the call raise \<open>ValueError\<close>.
\<close>

lemma create_document_id_raises:
  "0 < l \<Longrightarrow> l < digit_count n \<Longrightarrow> create_document_id l h s d i (Some n) = Inl ValueError"
  by (simp add: create_document_id_def Let_def join_id_raises err_bind_def)

text \<open>
  With a chunk index the shortened form keeps the index, so an index that the limit
  admits and that has more than 1024 digits gives an identifier longer than 1024
  characters.
\<close>

lemma create_document_id_long_index:
  assumes "l = 0 \<or> digit_count n \<le> l" and "1024 < digit_count n"
  shows "\<exists>ident. create_document_id l h s d i (Some n) = Inr ident \<and> 1024 < length ident"
  using assms
  by (simp add: create_document_id_def Let_def join_id_Some err_bind_def int_digits_length)

text \<open>
  Without a chunk index, or with one of at most 940 digits that the limit admits, the
  joined string fits and is returned as it is, whatever the digest function.
\<close>

lemma create_document_id_plain:
  assumes "index_opt = None \<or>
           (\<exists>n. index_opt = Some n \<and> digit_count n \<le> 940 \<and> (l = 0 \<or> digit_count n \<le> l))"
  shows "create_document_id l h s d i index_opt =
           Inr (sanitize_id_part s 20 @ [95] @ sanitize_id_part d 20 @ [95] @
                sanitize_id_part i 40 @
                (case index_opt of None \<Rightarrow> [] | Some n \<Rightarrow> 95 # int_digits n))"
proof (cases index_opt)
  case None
  then show ?thesis
    using sanitized_lengths(1) [of s] sanitized_lengths(1) [of d] sanitized_lengths(2) [of i]
    by (simp add: create_document_id_def Let_def join_id_None err_bind_def)
next
  case (Some n)
  then have n: "digit_count n \<le> 940" "l = 0 \<or> digit_count n \<le> l" using assms by auto
  then have "length (int_digits n) \<le> 941" by (simp add: int_digits_length)
  then show ?thesis
    using n(2) sanitized_lengths(1) [of s] sanitized_lengths(1) [of d] sanitized_lengths(2) [of i]
    by (simp add: Some create_document_id_def Let_def join_id_Some err_bind_def)
qed

lemma nat_digits_id_char: "list_all id_char (nat_digits n)"
proof (induction n rule: nat_digits.induct)
  case (1 n)
  have d: "id_char (48 + k)" if "k < 10" for k
    using that by (simp add: id_char_def is_ascii_digit_def)
  show ?case
  proof (cases "n < 10")
    case True
    then show ?thesis using d [of n] by (simp add: nat_digits.simps [of n])
  next
    case False
    then show ?thesis using 1 d [of "n mod 10"] by (simp add: nat_digits.simps [of n])
  qed
qed

lemma int_digits_id_char: "list_all id_char (int_digits n)"
  by (simp add: int_digits_def nat_digits_id_char id_char_def)

text \<open>
  In that range the identifier matches the pattern and has at most 1024 characters.
\<close>

lemma create_document_id_within_bounds:
  assumes "index_opt = None \<or>
           (\<exists>n. index_opt = Some n \<and> digit_count n \<le> 940 \<and> (l = 0 \<or> digit_count n \<le> l))"
  shows "\<exists>ident. create_document_id l h s d i index_opt = Inr ident \<and>
           matches_id_pattern ident \<and> length ident \<le> 1024"
proof -
  let ?ident = "sanitize_id_part s 20 @ [95] @ sanitize_id_part d 20 @ [95] @
                sanitize_id_part i 40 @
                (case index_opt of None \<Rightarrow> [] | Some n \<Rightarrow> 95 # int_digits n)"
  have r: "create_document_id l h s d i index_opt = Inr ?ident"
    using assms by (rule create_document_id_plain)
  have p: "matches_id_pattern (sanitize_id_part s 20)" "matches_id_pattern (sanitize_id_part d 20)"
    "matches_id_pattern (sanitize_id_part i 40)"
    using sanitize_id_part_shape [of 20] sanitize_id_part_shape [of 40] by simp_all
  have "matches_id_pattern ?ident"
    using p int_digits_id_char
    by (cases index_opt) (auto simp: matches_id_pattern_def id_char_def)
  moreover have "length ?ident \<le> 1024"
    using assms sanitized_lengths(1) [of s] sanitized_lengths(1) [of d] sanitized_lengths(2) [of i]
    by (auto simp: int_digits_length)
  ultimately show ?thesis using r by simp
qed

text \<open>
  With a chunk index of at most 992 digits the identifier has at most 1024 characters in
  either branch, whatever the digest function.
\<close>

lemma create_document_id_length_bound:
  assumes "create_document_id l h s d i (Some n) = Inr ident" and "digit_count n \<le> 992"
  shows "length ident \<le> 1024"
proof -
  have a: "l = 0 \<or> digit_count n \<le> l"
  proof (cases "0 < l \<and> l < digit_count n")
    case True
    then have "create_document_id l h s d i (Some n) = Inl ValueError"
      by (simp add: create_document_id_raises)
    with assms(1) show ?thesis by simp
  next
    case False
    then show ?thesis by auto
  qed
  have "length (slice_to 10 a @ [95] @ slice_to 10 b @ [95] @ slice_to 8 c @ [95] @ int_digits n)
          \<le> 1024" for a b c :: ustr
    using assms(2) by (auto simp: slice_to_def int_digits_length min_def)
  then show ?thesis
    using assms(1) a
    by (auto simp: create_document_id_def Let_def join_id_Some err_bind_def split: if_splits)
qed


text \<open>
  C4 (the identifier matches the pattern and has at most 1024 characters, for every
  optional chunk index). The docstring of \<open>create_document_id\<close> promises at most 1024
  characters, and the code shortens an over-long identifier for that purpose; but the
  shortened form ends in the chunk index again. For the identifiers \<open>s\<close>, \<open>d\<close>, \<open>i\<close> and
  the chunk index \<open>10 ^ 1024\<close>, a Python integer of 1025 digits, the call returns an
  identifier longer than 1024 characters, for any digest function, under the default
  digit limit of 4300 as well as without a limit.
\<close>

theorem create_document_id_exceeds_1024:
  "(\<exists>ident. create_document_id 4300 md5_hexdigest (ustr_of ''s'') (ustr_of ''d'') (ustr_of ''i'')
              (Some (10 ^ 1024)) = Inr ident \<and> 1024 < length ident) \<and>
   (\<exists>ident. create_document_id 0 md5_hexdigest (ustr_of ''s'') (ustr_of ''d'') (ustr_of ''i'')
              (Some (10 ^ 1024)) = Inr ident \<and> 1024 < length ident)"
proof -
  have c: "1024 < digit_count (10 ^ 1024)" "digit_count (10 ^ 1024) \<le> 4300"
    by (simp_all only: digit_count_power)
  show ?thesis
    using create_document_id_long_index [of 4300 "10 ^ 1024", OF disjI2 c(1), OF c(2)]
      create_document_id_long_index [of 0 "10 ^ 1024", OF disjI1 c(1), OF refl]
    by blast
qed




text \<open>
  C10 (without a chunk index the shortening branch is never taken). The three parts have
  at most 20, 20 and 40 characters, the joined string at most 82; the result is the plain
  join, in which the digest function does not occur.
\<close>

theorem create_document_id_no_index_plain:
  "create_document_id max_str_digits md5_hexdigest site_id drive_id item_id None =
     Inr (sanitize_id_part site_id 20 @ [95] @ sanitize_id_part drive_id 20 @ [95] @
          sanitize_id_part item_id 40)
   \<and> length (sanitize_id_part site_id 20 @ [95] @ sanitize_id_part drive_id 20 @ [95] @
          sanitize_id_part item_id 40) \<le> 82"
proof -
  have "length (sanitize_id_part site_id 20 @ [95] @ sanitize_id_part drive_id 20 @ [95] @
          sanitize_id_part item_id 40) \<le> 82"
    using sanitized_lengths(1) [of site_id] sanitized_lengths(1) [of drive_id]
      sanitized_lengths(2) [of item_id]
    by simp
  then show ?thesis by (simp add: create_document_id_def Let_def join_id_None err_bind_def)
qed


section \<open>Properties of the chunking engine\<close>

text \<open>Evaluation of \<open>split_text\<close> on a given text.\<close>

lemmas chunk_eval = split_text_def add_paragraph_def add_unit_def create_chunk_def
  overlap_text_def slice_from_def initial_state_def split_into_paragraphs_def
  split_into_sentences_def units_of_def units_of_paragraph_def strip_def lstrip_def
  rstrip_def isspace_def is_sentence_delim_def after_last_newline_def ustr_of_def Let_def

text \<open>
  C1 (an invalid configuration is rejected with InvalidConfiguration). The constructor
  has no check: a \<open>chunk_size\<close> of 0 and a \<open>chunk_overlap\<close> equal to \<open>chunk_size\<close> are
  both accepted.
\<close>

theorem TextChunker_init_accepts_invalid:
  "TextChunker_init 0 200 = Inr \<lparr>chunk_size = 0, chunk_overlap = 200\<rparr> \<and>
   TextChunker_init 100 100 = Inr \<lparr>chunk_size = 100, chunk_overlap = 100\<rparr>"
  by (simp add: TextChunker_init_def)

text \<open>
  C1, amended: constructing the chunker never fails; for every \<open>chunk_size\<close> and
  \<open>chunk_overlap\<close> it returns a chunker that holds the two values unchanged.
\<close>

theorem TextChunker_init_never_fails:
  "TextChunker_init size_arg overlap_arg =
     Inr \<lparr>chunk_size = size_arg, chunk_overlap = overlap_arg\<rparr>"
  by (simp add: TextChunker_init_def)

text \<open>
  For a positive \<open>chunk_overlap\<close> the carried text is the last \<open>chunk_overlap\<close>
  characters of the buffer, the whole buffer when it is shorter.
\<close>

lemma overlap_text_positive:
  "0 < k \<Longrightarrow> overlap_text k cur = drop (length cur - nat k) cur"
  by (auto simp: overlap_text_def slice_from_def nat_diff_distrib')

text \<open>
  C2 (the carried overlap is the last \<open>chunk_overlap\<close> characters, the empty string
  for \<open>chunk_overlap = 0\<close>). With \<open>chunk_overlap = 0\<close> the slice \<open>current_chunk[-0:]\<close> is
  the whole buffer: for \<open>chunk_size = 10\<close> and two paragraphs of eight characters the
  second chunk repeats the whole first buffer.
\<close>

theorem overlap_text_zero_is_whole_buffer:
  "overlap_text 0 (ustr_of ''aaaaaaaa'' @ [10, 10]) = ustr_of ''aaaaaaaa'' @ [10, 10] \<and>
   split_text \<lparr>chunk_size = 10, chunk_overlap = 0\<rparr>
     (ustr_of ''aaaaaaaa'' @ [10, 10] @ ustr_of ''bbbbbbbb'') None =
   [\<lparr>chunk_text = ustr_of ''aaaaaaaa'', chunk_index = 0, start_char = 0, end_char = 10,
      metadata = []\<rparr>,
    \<lparr>chunk_text = ustr_of ''aaaaaaaa'' @ [10, 10] @ ustr_of ''bbbbbbbb'', chunk_index = 1,
      start_char = 10, end_char = 30, metadata = []\<rparr>]"
  by (simp add: chunk_eval)

subsection \<open>Chunk indices\<close>

lemma indexed_initial: "indexed initial_state"
  by (simp add: indexed_def initial_state_def)

lemma add_unit_indexed: "indexed st \<Longrightarrow> indexed (add_unit self md sep st u)"
  by (simp add: indexed_def add_unit_def Let_def create_chunk_def)

lemma foldl_add_unit_indexed:
  "indexed st \<Longrightarrow> indexed (foldl (add_unit self md sep) st us)"
  by (induction us arbitrary: st) (simp_all add: add_unit_indexed)

lemma add_paragraph_indexed: "indexed st \<Longrightarrow> indexed (add_paragraph self md st p)"
  by (simp add: add_paragraph_def add_unit_indexed foldl_add_unit_indexed)

lemma foldl_add_paragraph_indexed:
  "indexed st \<Longrightarrow> indexed (foldl (add_paragraph self md) st ps)"
  by (induction ps arbitrary: st) (simp_all add: add_paragraph_indexed)

text \<open>
  C7: the chunks returned carry the indices \<open>0, \<dots>, n - 1\<close> in order, and an empty or
  all-whitespace text gives no chunk.
\<close>

theorem split_text_indices_gapless:
  "map chunk_index (split_text self t md) = map int [0..<length (split_text self t md)] \<and>
   (strip t = [] \<longrightarrow> split_text self t md = [])"
proof -
  define st where "st = foldl (add_paragraph self md) initial_state (split_into_paragraphs t)"
  have "indexed st" unfolding st_def by (rule foldl_add_paragraph_indexed) (rule indexed_initial)
  then have "map chunk_index (split_text self t md) = map int [0..<length (split_text self t md)]"
    by (simp add: split_text_def Let_def create_chunk_def indexed_def flip: st_def)
  then show ?thesis by (simp add: split_text_def)
qed

theorem split_text_indices_gapless_witness:
  "strip [32, 10, 9] = [] \<and>
   split_text \<lparr>chunk_size = 1000, chunk_overlap = 200\<rparr> [32, 10, 9] None = [] \<and>
   map chunk_index
     (split_text \<lparr>chunk_size = 5, chunk_overlap = 2\<rparr> (ustr_of ''Hello world. Bye bye now.'')
        None) = [0, 1]"
  using split_text_indices_gapless [of "\<lparr>chunk_size = 1000, chunk_overlap = 200\<rparr>" "[32, 10, 9]" None]
    split_text_indices_gapless [of "\<lparr>chunk_size = 5, chunk_overlap = 2\<rparr>"
      "ustr_of ''Hello world. Bye bye now.''" None]
  by (simp add: chunk_eval)

subsection \<open>Units are never split\<close>

lemma dropWhile_keeps_clean:
  assumes "u \<noteq> []" "\<not> P (hd u)"
  shows "\<exists>p'. dropWhile P (p @ u @ q) = p' @ u @ q"
proof (cases "\<forall>x\<in>set p. P x")
  case True
  then have "dropWhile P (p @ u @ q) = dropWhile P (u @ q)" by (simp add: dropWhile_append)
  also have "\<dots> = u @ q" using assms by (cases u) auto
  finally have "dropWhile P (p @ u @ q) = [] @ u @ q" by simp
  then show ?thesis by blast
next
  case False
  then have "dropWhile P (p @ u @ q) = dropWhile P p @ u @ q" by (auto simp: dropWhile_append)
  then show ?thesis by blast
qed

lemma sublist_lstrip: "clean u \<Longrightarrow> sublist u b \<Longrightarrow> sublist u (lstrip b)"
proof -
  assume c: "clean u" and "sublist u b"
  then obtain p q where "b = p @ u @ q" by (auto simp: sublist_def)
  moreover obtain p' where "dropWhile isspace (p @ u @ q) = p' @ u @ q"
    using dropWhile_keeps_clean [of u isspace p q] c by (auto simp: clean_def)
  ultimately show ?thesis by (auto simp: lstrip_def sublist_def)
qed

lemma clean_rev: "clean (rev u) = clean u"
  by (cases "u = []") (auto simp: clean_def hd_rev last_rev)

lemma sublist_rstrip: "clean u \<Longrightarrow> sublist u b \<Longrightarrow> sublist u (rstrip b)"
proof -
  assume c: "clean u" and s: "sublist u b"
  have "sublist (rev u) (lstrip (rev b))"
    using c s by (intro sublist_lstrip) (simp_all add: clean_rev)
  then have "sublist (rev (rev u)) (rev (lstrip (rev b)))" by (simp only: sublist_rev)
  then show ?thesis by (simp add: rstrip_def lstrip_def)
qed

lemma sublist_strip: "clean u \<Longrightarrow> sublist u b \<Longrightarrow> sublist u (strip b)"
  by (simp add: strip_def sublist_lstrip sublist_rstrip)

lemma last_dropWhile: "dropWhile P xs \<noteq> [] \<Longrightarrow> last (dropWhile P xs) = last xs"
proof -
  assume ne: "dropWhile P xs \<noteq> []"
  have "last (takeWhile P xs @ dropWhile P xs) = last (dropWhile P xs)"
    using ne by (rule last_appendR)
  then show ?thesis by simp
qed

lemma strip_clean: "strip s \<noteq> [] \<Longrightarrow> clean (strip s)"
proof -
  assume ne: "strip s \<noteq> []"
  define l where "l = dropWhile isspace s"
  define d where "d = dropWhile isspace (rev l)"
  have st: "strip s = rev d" by (simp add: strip_def rstrip_def lstrip_def l_def d_def)
  have dne: "d \<noteq> []" using ne st by simp
  then have lne: "l \<noteq> []" by (auto simp: d_def)
  have hl: "\<not> isspace (hd l)" using lne unfolding l_def by (rule hd_dropWhile)
  have hd_d: "\<not> isspace (hd d)" using dne unfolding d_def by (rule hd_dropWhile)
  have "last d = last (rev l)" using dne unfolding d_def by (rule last_dropWhile)
  then have last_d: "\<not> isspace (last d)" using hl lne by (simp add: last_rev)
  show ?thesis using dne hd_d last_d by (simp add: st clean_def hd_rev last_rev)
qed

lemma strip_blank_iff: "strip s = [] \<longleftrightarrow> list_all isspace s"
proof
  assume "strip s = []"
  then have "dropWhile isspace (rev (dropWhile isspace s)) = []"
    by (simp add: strip_def rstrip_def lstrip_def)
  then have "\<forall>x\<in>set (rev (dropWhile isspace s)). isspace x"
    by (simp only: dropWhile_eq_Nil_conv)
  then have a: "\<forall>x\<in>set (dropWhile isspace s). isspace x" by (simp only: set_rev)
  have "dropWhile isspace s = []"
  proof (rule ccontr)
    assume n: "dropWhile isspace s \<noteq> []"
    then have "\<not> isspace (hd (dropWhile isspace s))" by (rule hd_dropWhile)
    moreover have "hd (dropWhile isspace s) \<in> set (dropWhile isspace s)" using n by simp
    ultimately show False using a by blast
  qed
  then show "list_all isspace s" by (simp add: dropWhile_eq_Nil_conv list_all_iff)
next
  assume "list_all isspace s"
  then have "dropWhile isspace s = []" by (simp add: dropWhile_eq_Nil_conv list_all_iff)
  then show "strip s = []" by (simp only: strip_def rstrip_def lstrip_def rev.simps dropWhile.simps)
qed

lemma re_split_blank_chars:
  "p \<in> set (re_split_blank acc s) \<Longrightarrow> set p \<subseteq> set acc \<union> set s"
proof (induction acc s arbitrary: p rule: re_split_blank.induct)
  case (1 acc)
  then show ?case by simp
next
  case (2 acc c cs)
  show ?case
  proof (cases "c = 10 \<and> 10 \<in> set (takeWhile isspace cs)")
    case True
    have sub: "set (after_last_newline (takeWhile isspace cs) @ dropWhile isspace cs) \<subseteq> set cs"
      using set_takeWhileD [of _ "\<lambda>c. c \<noteq> 10" "rev (takeWhile isspace cs)"]
        set_takeWhileD [of _ isspace cs] set_dropWhileD [of _ isspace cs]
      by (auto simp: after_last_newline_def)
    from "2.prems" True consider "p = rev acc"
      | "p \<in> set (re_split_blank [] (after_last_newline (takeWhile isspace cs) @ dropWhile isspace cs))"
      by auto
    then show ?thesis
    proof cases
      case 1
      then show ?thesis by auto
    next
      case 2
      then have "set p \<subseteq> set [] \<union> set (after_last_newline (takeWhile isspace cs) @ dropWhile isspace cs)"
        using "2.IH"(1) True by blast
      then show ?thesis using sub by auto
    qed
  next
    case False
    then have "p \<in> set (re_split_blank (c # acc) cs)" using "2.prems" by auto
    then have "set p \<subseteq> set (c # acc) \<union> set cs" using "2.IH"(2) False by blast
    then show ?thesis by auto
  qed
qed

lemma blank_no_paragraphs: "strip t = [] \<Longrightarrow> split_into_paragraphs t = []"
proof -
  assume "strip t = []"
  then have w: "\<forall>c\<in>set t. isspace c" by (simp add: strip_blank_iff list_all_iff)
  have "strip p = []" if "p \<in> set (re_split_blank [] t)" for p
  proof -
    have "set p \<subseteq> set t" using re_split_blank_chars [OF that] by simp
    then show ?thesis using w by (auto simp: strip_blank_iff list_all_iff)
  qed
  then show ?thesis by (simp add: split_into_paragraphs_def filter_empty_conv)
qed

lemma not_space_delim: "\<not> isspace 12290"
  by (simp add: isspace_def)

lemma paragraph_clean: "p \<in> set (split_into_paragraphs t) \<Longrightarrow> clean p"
  by (auto simp: split_into_paragraphs_def strip_clean)

lemma sentence_clean: "s \<in> set (split_into_sentences p) \<Longrightarrow> clean s"
proof -
  assume "s \<in> set (split_into_sentences p)"
  then obtain r where r: "s = strip r @ [12290]" "strip r \<noteq> []"
    by (auto simp: split_into_sentences_def)
  then have "clean (strip r)" by (simp add: strip_clean)
  then show ?thesis using r not_space_delim by (simp add: clean_def)
qed

lemma unit_clean: "u \<in> set (units_of self t) \<Longrightarrow> clean u"
  by (auto simp: units_of_def units_of_paragraph_def paragraph_clean sentence_clean split: if_splits)

lemma clean_not_in_empty: "clean u \<Longrightarrow> \<not> sublist u []"
  by (simp add: clean_def)

lemma add_unit_keeps:
  assumes c: "clean u" and cov: "covered st u"
  shows "covered (add_unit self md sep st v) u"
proof -
  from cov consider (old) "list_ex (\<lambda>c. sublist u (chunk_text c)) (chunks st)"
    | (cur) "sublist u (current_chunk st)" by (auto simp: covered_def)
  then show ?thesis
  proof cases
    case old
    then show ?thesis by (simp add: covered_def add_unit_def Let_def)
  next
    case cur
    then have ne: "current_chunk st \<noteq> []" using c by (auto simp: clean_def)
    have a: "sublist u (current_chunk st @ v @ sep)" using cur sublist_append_rightI [of "current_chunk st" "v @ sep"]
      by (rule sublist_order.order.trans)
    have b: "sublist u (strip (current_chunk st))" using c cur by (rule sublist_strip)
    show ?thesis using ne a b by (simp add: covered_def add_unit_def Let_def create_chunk_def)
  qed
qed

lemma add_unit_adds: "covered (add_unit self md sep st v) v"
proof -
  show ?thesis by (simp add: covered_def add_unit_def Let_def)
qed

lemma foldl_add_unit_covered:
  "clean u \<Longrightarrow> covered st u \<or> u \<in> set vs \<Longrightarrow> covered (foldl (add_unit self md sep) st vs) u"
proof (induction vs arbitrary: st)
  case Nil
  then show ?case by simp
next
  case (Cons v vs)
  have "covered (add_unit self md sep st v) u \<or> u \<in> set vs"
    using Cons.prems add_unit_keeps [of u st self md sep v] add_unit_adds [of self md sep st v]
    by auto
  then show ?case using Cons.IH [OF Cons.prems(1)] by simp
qed

lemma add_paragraph_fold:
  "add_paragraph self md st para =
     foldl (add_unit self md (if int (length para) > chunk_size self then [32] else [10, 10])) st
       (units_of_paragraph self para)"
  by (simp add: add_paragraph_def units_of_paragraph_def)

lemma add_paragraph_covered:
  "clean u \<Longrightarrow> covered st u \<or> u \<in> set (units_of_paragraph self para) \<Longrightarrow>
     covered (add_paragraph self md st para) u"
  unfolding add_paragraph_fold by (rule foldl_add_unit_covered)

lemma foldl_add_paragraph_covered:
  "clean u \<Longrightarrow> covered st u \<or> u \<in> set (concat (map (units_of_paragraph self) ps)) \<Longrightarrow>
     covered (foldl (add_paragraph self md) st ps) u"
proof (induction ps arbitrary: st)
  case Nil
  then show ?case by simp
next
  case (Cons p ps)
  have "covered (add_paragraph self md st p) u \<or> u \<in> set (concat (map (units_of_paragraph self) ps))"
    using Cons.prems add_paragraph_covered [of u st self p md] by auto
  then show ?case using Cons.IH [OF Cons.prems(1)] by simp
qed



text \<open>
  Every unit, whatever its length, is a contiguous part of the text of at least one
  chunk returned.
\<close>

lemma unit_in_some_chunk:
  assumes u: "u \<in> set (units_of self t)"
  shows "list_ex (\<lambda>c. sublist u (chunk_text c)) (split_text self t md)"
proof -
  have c: "clean u" using u by (rule unit_clean)
  define st where "st = foldl (add_paragraph self md) initial_state (split_into_paragraphs t)"
  have cov: "covered st u"
    unfolding st_def using c u by (intro foldl_add_paragraph_covered) (simp_all add: units_of_def)
  have "split_into_paragraphs t \<noteq> []" using u by (auto simp: units_of_def)
  then have t: "strip t \<noteq> []" "t \<noteq> []" using blank_no_paragraphs [of t] by (auto simp: strip_def lstrip_def rstrip_def)
  from cov consider (old) "list_ex (\<lambda>c. sublist u (chunk_text c)) (chunks st)"
    | (cur) "sublist u (current_chunk st)" by (auto simp: covered_def)
  then show ?thesis
  proof cases
    case old
    then show ?thesis using t by (simp add: split_text_def Let_def flip: st_def)
  next
    case cur
    then have s: "sublist u (strip (current_chunk st))" using c by (simp add: sublist_strip)
    then have "strip (current_chunk st) \<noteq> []" using c by (auto simp: clean_def)
    then show ?thesis using t s by (simp add: split_text_def Let_def create_chunk_def flip: st_def)
  qed
qed

subsection \<open>A unit longer than \<open>chunk_size\<close> has a chunk of its own\<close>















lemma state_before_first:
  "carried_into self (state_before self md t 0) = [] \<and> chunks_before (state_before self md t 0) = 0"
  by (simp add: state_before_def carried_into_def chunks_before_def initial_state_def)








section \<open>Properties of the ACL extractor\<close>

lemmas acl_eval = extract_acl_from_permissions_def collect_permission_def granted_of_def
  identities_of_def collect_grantee_def collect_id_def err_bind_def list_of_set_def ustr_of_def
  sublist_code

subsection \<open>When the extractor returns\<close>

lemma collect_id_ok:
  assumes "principal_ok (field kvs key)" and "list_all hashable ids"
  shows "\<exists>ids'. collect_id (PDict kvs) key ids = Inr ids' \<and> list_all hashable ids'"
proof (cases "field kvs key")
  case (PDict d)
  then show ?thesis using assms
    by (cases d) (auto simp: collect_id_def err_bind_def field_def split: option.splits)
qed (use assms in \<open>auto simp: collect_id_def err_bind_def field_def split: option.splits\<close>)

lemma collect_grantee_ok:
  assumes "grantee_ok g" and "hashable_acc acc"
  shows "\<exists>acc'. collect_grantee g acc = Inr acc' \<and> hashable_acc acc'"
proof -
  obtain kvs where g: "g = PDict kvs" using assms(1) by (cases g) auto
  obtain us where us: "collect_id (PDict kvs) (ustr_of ''user'') (fst acc) = Inr us" "list_all hashable us"
    using collect_id_ok [of kvs "ustr_of ''user''" "fst acc"] assms g by (auto simp: hashable_acc_def)
  obtain gs where gs: "collect_id (PDict kvs) (ustr_of ''group'') (snd acc) = Inr gs" "list_all hashable gs"
    using collect_id_ok [of kvs "ustr_of ''group''" "snd acc"] assms g by (auto simp: hashable_acc_def)
  show ?thesis using us gs by (simp add: collect_grantee_def err_bind_def g hashable_acc_def)
qed

lemma fold_err_ok:
  assumes step: "\<And>x acc. ok x \<Longrightarrow> hashable_acc acc \<Longrightarrow> \<exists>acc'. f x acc = Inr acc' \<and> hashable_acc acc'"
  shows "list_all ok xs \<Longrightarrow> hashable_acc acc \<Longrightarrow> \<exists>acc'. fold_err f xs acc = Inr acc' \<and> hashable_acc acc'"
proof (induction xs arbitrary: acc)
  case Nil
  then show ?case by simp
next
  case (Cons x xs)
  then obtain acc1 where a: "f x acc = Inr acc1" "hashable_acc acc1" using step [of x acc] by auto
  then show ?case using Cons.IH [of acc1] Cons.prems by (simp add: err_bind_def)
qed

lemma collect_permission_ok:
  assumes "permission_ok perm" and "hashable_acc acc"
  shows "\<exists>acc'. collect_permission perm acc = Inr acc' \<and> hashable_acc acc'"
proof -
  obtain g where g: "granted_of perm = Inr g" "truthy g \<Longrightarrow> grantee_ok g"
    using assms(1) by (auto simp: permission_ok_def split: sum.splits if_splits)
  obtain ids es where ids: "identities_of perm = Inr ids" "py_iter ids = Inr es" "list_all grantee_ok es"
    using assms(1) by (auto simp: permission_ok_def entries_ok_def split: sum.splits)
  obtain acc1 where a1: "(if truthy g then collect_grantee g acc else Inr acc) = Inr acc1" "hashable_acc acc1"
    using collect_grantee_ok [of g acc] g(2) assms(2) by (cases "truthy g") auto
  obtain acc2 where a2: "fold_err collect_grantee es acc1 = Inr acc2" "hashable_acc acc2"
    using fold_err_ok [of grantee_ok collect_grantee es acc1] collect_grantee_ok ids(3) a1(2) by blast
  show ?thesis using g(1) ids a1 a2 by (simp add: collect_permission_def err_bind_def)
qed

lemma extract_ok:
  assumes "permissions_ok permissions"
  shows "\<exists>user_ids group_ids. extract_acl_from_permissions permissions = Inr (user_ids, group_ids)"
proof -
  obtain perms where p: "py_iter permissions = Inr perms" "list_all permission_ok perms"
    using assms by (auto simp: permissions_ok_def split: sum.splits)
  have "hashable_acc ([], [])" by (simp add: hashable_acc_def)
  then obtain acc where a: "fold_err collect_permission perms ([], []) = Inr acc" "hashable_acc acc"
    using fold_err_ok [of permission_ok collect_permission perms "([], [])"] collect_permission_ok p(2)
    by blast
  then show ?thesis using p(1)
    by (simp add: extract_acl_from_permissions_def err_bind_def list_of_set_def hashable_acc_def)
qed

lemma extract_not_iterable:
  "py_iter permissions = Inl e \<Longrightarrow> extract_acl_from_permissions permissions = Inl e"
  by (simp add: extract_acl_from_permissions_def err_bind_def)

lemma id_key_not_empty: "ustr_of ''id'' \<noteq> []"
  by (simp add: ustr_of_def)

lemma collect_id_Inr:
  assumes "collect_id g key ids = Inr ids'" and "list_all hashable ids'"
  shows "\<exists>kvs. g = PDict kvs \<and> principal_ok (field kvs key) \<and> list_all hashable ids"
proof -
  obtain kvs where g: "g = PDict kvs"
    using assms(1) by (cases g) (auto simp: collect_id_def err_bind_def)
  have "principal_ok (field kvs key) \<and> list_all hashable ids"
    using assms unfolding g
    by (cases "field kvs key")
       (auto simp: collect_id_def err_bind_def field_def id_key_not_empty
          split: option.splits if_splits)
  then show ?thesis using g by simp
qed

lemma collect_grantee_Inr:
  assumes "collect_grantee g acc = Inr acc'" and "hashable_acc acc'"
  shows "grantee_ok g \<and> hashable_acc acc"
proof -
  obtain us gs where r: "collect_id g (ustr_of ''user'') (fst acc) = Inr us"
    "collect_id g (ustr_of ''group'') (snd acc) = Inr gs" "acc' = (us, gs)"
    using assms(1) by (auto simp: collect_grantee_def err_bind_def split: sum.splits)
  have h: "list_all hashable us" "list_all hashable gs" using assms(2) r(3) by (simp_all add: hashable_acc_def)
  show ?thesis
    using collect_id_Inr [OF r(1) h(1)] collect_id_Inr [OF r(2) h(2)]
    by (auto simp: hashable_acc_def)
qed

lemma fold_err_Inr:
  assumes step: "\<And>x acc acc'. f x acc = Inr acc' \<Longrightarrow> hashable_acc acc' \<Longrightarrow> ok x \<and> hashable_acc acc"
  shows "fold_err f xs acc = Inr acc' \<Longrightarrow> hashable_acc acc' \<Longrightarrow> list_all ok xs \<and> hashable_acc acc"
proof (induction xs arbitrary: acc)
  case Nil
  then show ?case by simp
next
  case (Cons x xs)
  then obtain acc1 where a: "f x acc = Inr acc1" "fold_err f xs acc1 = Inr acc'"
    by (auto simp: err_bind_def split: sum.splits)
  have "list_all ok xs \<and> hashable_acc acc1" using Cons.IH [OF a(2) Cons.prems(2)] .
  then show ?case using step [OF a(1)] by simp
qed

lemma collect_permission_Inr:
  assumes "collect_permission perm acc = Inr acc'" and "hashable_acc acc'"
  shows "permission_ok perm \<and> hashable_acc acc"
proof -
  obtain g acc1 ids es where r: "granted_of perm = Inr g"
    "(if truthy g then collect_grantee g acc else Inr acc) = Inr acc1"
    "identities_of perm = Inr ids" "py_iter ids = Inr es"
    "fold_err collect_grantee es acc1 = Inr acc'"
    using assms(1) by (auto simp: collect_permission_def err_bind_def split: sum.splits)
  have e: "list_all grantee_ok es \<and> hashable_acc acc1"
    using fold_err_Inr [of collect_grantee grantee_ok es acc1 acc'] collect_grantee_Inr r(5) assms(2)
    by blast
  have "(if truthy g then grantee_ok g else True) \<and> hashable_acc acc"
    using r(2) e collect_grantee_Inr [of g acc acc1] by (auto split: if_splits)
  then show ?thesis using r(1,3,4) e by (simp add: permission_ok_def entries_ok_def)
qed

lemma extract_Inr:
  assumes "extract_acl_from_permissions permissions = Inr r"
  shows "permissions_ok permissions"
proof -
  obtain perms acc where p: "py_iter permissions = Inr perms"
    "fold_err collect_permission perms ([], []) = Inr acc" "hashable_acc acc"
    using assms
    by (auto simp: extract_acl_from_permissions_def err_bind_def list_of_set_def hashable_acc_def
        split: sum.splits if_splits)
  have "list_all permission_ok perms"
    using fold_err_Inr [of collect_permission permission_ok perms "([], [])" acc]
      collect_permission_Inr p(2,3) by blast
  then show ?thesis using p(1) by (simp add: permissions_ok_def)
qed

text \<open>
  C3 (the extractor never fails on malformed records, only on a non-iterable input). A
  record that is not a mapping, an identities entry that is not a mapping, a \<open>user\<close>
  that is a number and an identities value that is \<open>None\<close> each raise.
\<close>

theorem extract_acl_raises_on_malformed:
  "extract_acl_from_permissions (PList [PStr (ustr_of ''x'')]) = Inl AttributeError \<and>
   extract_acl_from_permissions
     (PList [PDict [(ustr_of ''grantedToIdentities'', PList [PInt 5])]]) = Inl AttributeError \<and>
   extract_acl_from_permissions
     (PList [PDict [(ustr_of ''grantedTo'', PDict [(ustr_of ''user'', PInt 5)])]]) = Inl TypeError \<and>
   extract_acl_from_permissions
     (PList [PDict [(ustr_of ''grantedToIdentities'', PNone)]]) = Inl TypeError"
  by (simp add: acl_eval)

text \<open>
  C3, amended: the extractor returns a pair exactly on the inputs of \<open>permissions_ok\<close>
  (an iterable of mappings whose selected granted-to value is false or a mapping, whose
  selected identities value is an iterable of mappings, and whose \<open>user\<close> and \<open>group\<close>
  values are false or mappings with an \<open>id\<close> that can be hashed, missing keys being
  skipped); it raises on every other input, with \<open>TypeError\<close> when the input cannot be
  iterated.
\<close>

theorem extract_acl_returns_iff_well_formed:
  "((\<exists>user_ids group_ids.
       extract_acl_from_permissions permissions = Inr (user_ids, group_ids)) \<longleftrightarrow>
    permissions_ok permissions) \<and>
   (py_iter permissions = Inl TypeError \<longrightarrow>
      extract_acl_from_permissions permissions = Inl TypeError)"
proof -
  have "permissions_ok permissions"
    if "extract_acl_from_permissions permissions = Inr (user_ids, group_ids)"
    for user_ids group_ids
    using that by (rule extract_Inr)
  then show ?thesis using extract_ok [of permissions] extract_not_iterable [of permissions] by blast
qed

theorem extract_acl_returns_iff_well_formed_witness:
  "permissions_ok
     (PList [PDict [(ustr_of ''grantedToV2'',
                     PDict [(ustr_of ''user'', PDict [(ustr_of ''id'', PStr (ustr_of ''u1''))])])],
             PDict [(ustr_of ''grantedToIdentitiesV2'',
                     PList [PDict [(ustr_of ''group'',
                                    PDict [(ustr_of ''id'', PStr (ustr_of ''g1''))])]])]]) \<and>
   extract_acl_from_permissions
     (PList [PDict [(ustr_of ''grantedToV2'',
                     PDict [(ustr_of ''user'', PDict [(ustr_of ''id'', PStr (ustr_of ''u1''))])])],
             PDict [(ustr_of ''grantedToIdentitiesV2'',
                     PList [PDict [(ustr_of ''group'',
                                    PDict [(ustr_of ''id'', PStr (ustr_of ''g1''))])]])]]) =
     Inr ({#PStr (ustr_of ''u1'')#}, {#PStr (ustr_of ''g1'')#}) \<and>
   py_iter (PInt 7) = Inl TypeError \<and>
   extract_acl_from_permissions (PInt 7) = Inl TypeError"
  using extract_acl_returns_iff_well_formed [of "PList [PDict [(ustr_of ''grantedToV2'',
                     PDict [(ustr_of ''user'', PDict [(ustr_of ''id'', PStr (ustr_of ''u1''))])])],
             PDict [(ustr_of ''grantedToIdentitiesV2'',
                     PList [PDict [(ustr_of ''group'',
                                    PDict [(ustr_of ''id'', PStr (ustr_of ''g1''))])]])]]"]
    extract_acl_returns_iff_well_formed [of "PInt 7"]
  by (simp add: acl_eval)

subsection \<open>Preference of the v2 fields\<close>

text \<open>
  C8 (when both fields are present the v2 field is read). The selection is by truth
  value, not by presence: with an empty \<open>grantedToV2\<close> the user of \<open>grantedTo\<close> is read,
  with an empty \<open>grantedToIdentitiesV2\<close> the group of \<open>grantedToIdentities\<close>.
\<close>

theorem empty_v2_field_falls_back:
  "extract_acl_from_permissions
     (PList [PDict [(ustr_of ''grantedToV2'', PDict []),
                    (ustr_of ''grantedTo'',
                     PDict [(ustr_of ''user'', PDict [(ustr_of ''id'', PStr (ustr_of ''u1''))])])]]) =
     Inr ({#PStr (ustr_of ''u1'')#}, {#}) \<and>
   extract_acl_from_permissions
     (PList [PDict [(ustr_of ''grantedToIdentitiesV2'', PList []),
                    (ustr_of ''grantedToIdentities'',
                     PList [PDict [(ustr_of ''group'',
                                    PDict [(ustr_of ''id'', PStr (ustr_of ''g1''))])]])]]) =
     Inr ({#}, {#PStr (ustr_of ''g1'')#})"
  by (simp add: acl_eval)

text \<open>
  C8, amended: a \<open>grantedToV2\<close> value that is true (present, not \<open>None\<close>, not empty) is
  the one read, whatever \<open>grantedTo\<close> holds; when it is absent or false, \<open>grantedTo\<close> is
  read. The same holds for \<open>grantedToIdentitiesV2\<close> and \<open>grantedToIdentities\<close>, with the
  empty list when the legacy key is absent. With both v2 values true, the legacy fields
  have no effect on what the record contributes.
\<close>

theorem v2_field_read_when_truthy:
  "(map_of kvs (ustr_of ''grantedToV2'') = Some v2 \<and> truthy v2 \<longrightarrow>
      granted_of (PDict kvs) = Inr v2 \<and>
      granted_of (PDict ((ustr_of ''grantedTo'', legacy) # kvs)) = Inr v2) \<and>
   (\<not> truthy (field kvs (ustr_of ''grantedToV2'')) \<longrightarrow>
      granted_of (PDict kvs) = Inr (field kvs (ustr_of ''grantedTo''))) \<and>
   (map_of kvs (ustr_of ''grantedToIdentitiesV2'') = Some i2 \<and> truthy i2 \<longrightarrow>
      identities_of (PDict kvs) = Inr i2 \<and>
      identities_of (PDict ((ustr_of ''grantedToIdentities'', legacy) # kvs)) = Inr i2) \<and>
   (\<not> truthy (field kvs (ustr_of ''grantedToIdentitiesV2'')) \<longrightarrow>
      identities_of (PDict kvs) =
        Inr (case map_of kvs (ustr_of ''grantedToIdentities'') of
               Some v \<Rightarrow> v | None \<Rightarrow> PList [])) \<and>
   (map_of kvs (ustr_of ''grantedToV2'') = Some v2 \<and> truthy v2 \<and>
    map_of kvs (ustr_of ''grantedToIdentitiesV2'') = Some i2 \<and> truthy i2 \<longrightarrow>
      collect_permission
        (PDict ((ustr_of ''grantedTo'', legacy) # (ustr_of ''grantedToIdentities'', legacy') # kvs))
        acc =
      collect_permission (PDict kvs) acc)"
  by (auto simp: collect_permission_def granted_of_def identities_of_def err_bind_def
      ustr_of_def field_def split: option.splits)

theorem v2_field_read_when_truthy_witness:
  "map_of [(ustr_of ''grantedToV2'',
            PDict [(ustr_of ''user'', PDict [(ustr_of ''id'', PStr (ustr_of ''u1''))])])]
     (ustr_of ''grantedToV2'') =
     Some (PDict [(ustr_of ''user'', PDict [(ustr_of ''id'', PStr (ustr_of ''u1''))])]) \<and>
   truthy (PDict [(ustr_of ''user'', PDict [(ustr_of ''id'', PStr (ustr_of ''u1''))])]) \<and>
   granted_of
     (PDict [(ustr_of ''grantedTo'',
              PDict [(ustr_of ''user'', PDict [(ustr_of ''id'', PStr (ustr_of ''u2''))])]),
             (ustr_of ''grantedToV2'',
              PDict [(ustr_of ''user'', PDict [(ustr_of ''id'', PStr (ustr_of ''u1''))])])]) =
     Inr (PDict [(ustr_of ''user'', PDict [(ustr_of ''id'', PStr (ustr_of ''u1''))])]) \<and>
   extract_acl_from_permissions
     (PList [PDict [(ustr_of ''grantedTo'',
              PDict [(ustr_of ''user'', PDict [(ustr_of ''id'', PStr (ustr_of ''u2''))])]),
             (ustr_of ''grantedToV2'',
              PDict [(ustr_of ''user'', PDict [(ustr_of ''id'', PStr (ustr_of ''u1''))])])]]) =
     Inr ({#PStr (ustr_of ''u1'')#}, {#})"
  using v2_field_read_when_truthy [of
      "[(ustr_of ''grantedToV2'',
         PDict [(ustr_of ''user'', PDict [(ustr_of ''id'', PStr (ustr_of ''u1''))])])]"
      "PDict [(ustr_of ''user'', PDict [(ustr_of ''id'', PStr (ustr_of ''u1''))])]"
      "PDict [(ustr_of ''user'', PDict [(ustr_of ''id'', PStr (ustr_of ''u2''))])]"]
  by (simp add: acl_eval)

subsection \<open>Deduplication\<close>

lemma dedup_from_keys:
  "py_key ` set (dedup_from seen xs) = py_key ` set xs - set seen"
  by (induction xs arbitrary: seen) auto

lemma dedup_from_distinct: "distinct (map py_key (dedup_from seen xs))"
proof (induction xs arbitrary: seen)
  case Nil
  then show ?case by simp
next
  case (Cons x xs)
  have "py_key x \<notin> py_key ` set (dedup_from (py_key x # seen) xs)"
    by (simp add: dedup_from_keys)
  then show ?case using Cons.IH by simp
qed

lemma distinct_count_le_1: "distinct xs \<Longrightarrow> count (mset xs) x \<le> 1"
  by (simp add: distinct_count_atmost_1)

lemma list_of_set_distinct:
  assumes "list_of_set xs = Inr members"
  shows "count members x \<le> 1 \<and> count (image_mset py_key members) k \<le> 1"
proof -
  have m: "members = mset (dedup_from [] xs)"
    using assms by (auto simp: list_of_set_def split: if_splits)
  have d: "distinct (map py_key (dedup_from [] xs))" by (rule dedup_from_distinct)
  then have "distinct (dedup_from [] xs)" by (simp add: distinct_map)
  then have "count members x \<le> 1" unfolding m by (rule distinct_count_le_1)
  moreover have "count (mset (map py_key (dedup_from [] xs))) k \<le> 1"
    using d by (rule distinct_count_le_1)
  ultimately show ?thesis by (simp add: m)
qed

text \<open>The members returned are, up to Python's equality, those collected.\<close>

lemma list_of_set_members:
  "list_of_set xs = Inr members \<Longrightarrow> py_key ` set_mset members = py_key ` set xs"
  using dedup_from_keys [of "[]" xs] by (auto simp: list_of_set_def split: if_splits)

text \<open>
  C9: in both collections returned no member occurs twice, also when \<open>True\<close> and \<open>1\<close>
  count as equal; two records that grant the same user give one user.
\<close>

theorem extract_acl_deduplicates:
  "(extract_acl_from_permissions permissions = Inr (user_ids, group_ids) \<longrightarrow>
      (\<forall>x. count user_ids x \<le> 1) \<and> (\<forall>x. count group_ids x \<le> 1) \<and>
      (\<forall>k. count (image_mset py_key user_ids) k \<le> 1) \<and>
      (\<forall>k. count (image_mset py_key group_ids) k \<le> 1)) \<and>
   extract_acl_from_permissions
     (PList [PDict [(ustr_of ''grantedToV2'',
                     PDict [(ustr_of ''user'', PDict [(ustr_of ''id'', PStr uid)])])],
             PDict [(ustr_of ''grantedToV2'',
                     PDict [(ustr_of ''user'', PDict [(ustr_of ''id'', PStr uid)])])]]) =
     Inr ({#PStr uid#}, {#})"
proof -
  have "(\<forall>x. count user_ids x \<le> 1) \<and> (\<forall>x. count group_ids x \<le> 1) \<and>
      (\<forall>k. count (image_mset py_key user_ids) k \<le> 1) \<and>
      (\<forall>k. count (image_mset py_key group_ids) k \<le> 1)"
    if r: "extract_acl_from_permissions permissions = Inr (user_ids, group_ids)"
  proof -
    obtain us gs where "list_of_set us = Inr user_ids" "list_of_set gs = Inr group_ids"
      using r
      by (auto simp: extract_acl_from_permissions_def err_bind_def split: sum.splits)
    then show ?thesis using list_of_set_distinct by blast
  qed
  then show ?thesis by (simp add: acl_eval)
qed

theorem extract_acl_deduplicates_witness:
  "extract_acl_from_permissions
     (PList [PDict [(ustr_of ''grantedTo'',
                     PDict [(ustr_of ''user'', PDict [(ustr_of ''id'', PStr (ustr_of ''u1''))])])],
             PDict [(ustr_of ''grantedToIdentities'',
                     PList [PDict [(ustr_of ''user'',
                                    PDict [(ustr_of ''id'', PStr (ustr_of ''u1''))])],
                            PDict [(ustr_of ''user'',
                                    PDict [(ustr_of ''id'', PStr (ustr_of ''u2''))])]])]]) =
     Inr ({#PStr (ustr_of ''u1''), PStr (ustr_of ''u2'')#}, {#}) \<and>
   count {#PStr (ustr_of ''u1''), PStr (ustr_of ''u2'')#} (PStr (ustr_of ''u1'')) \<le> 1"
  using extract_acl_deduplicates [of
      "PList [PDict [(ustr_of ''grantedTo'',
                     PDict [(ustr_of ''user'', PDict [(ustr_of ''id'', PStr (ustr_of ''u1''))])])],
             PDict [(ustr_of ''grantedToIdentities'',
                     PList [PDict [(ustr_of ''user'',
                                    PDict [(ustr_of ''id'', PStr (ustr_of ''u1''))])],
                            PDict [(ustr_of ''user'',
                                    PDict [(ustr_of ''id'', PStr (ustr_of ''u2''))])]])]]"
      "{#PStr (ustr_of ''u1''), PStr (ustr_of ''u2'')#}" "{#}"]
  by (simp add: acl_eval)

end
